theory Spec2Isabelle
  imports Main "HOL-Library.Sublist"
begin

section \<open>DmMruSwitch: the MRU history and the cycle session\<close>

text \<open>
  The plugin keeps five module-level variables (\<^verbatim>\<open>mruDmChannelIds\<close>,
  \<^verbatim>\<open>isCyclingSessionActive\<close>, \<^verbatim>\<open>suppressMruWhileCycling\<close>, \<^verbatim>\<open>cycleSnapshot\<close>,
  \<^verbatim>\<open>cycleIndex\<close>) and two presentational ones (\<^verbatim>\<open>activeToastId\<close>, \<^verbatim>\<open>overlayModalKey\<close>).
  They are the fields of one record that every function takes and returns. What the
  plugin reads from its host (the channel directory, the selected channel, the settings)
  is a second record, \<open>world\<close>, passed to each handler: it may differ from one signal to
  the next, as the host changes between events.

  JavaScript numbers are doubles; every number here is an array length, an index or a
  slider marker, far below \<open>2^53\<close>, so \<open>int\<close> is exact.
\<close>

subsection \<open>The host\<close>

text \<open>
  \<^verbatim>\<open>channel.isDM?.()\<close> is an optional call inside a \<^verbatim>\<open>try\<close>: the method may be missing
  (the call yields \<^verbatim>\<open>undefined\<close>), return a boolean, or throw.
\<close>

datatype method_result = Missing | Returns bool | Throws

record channel =
  isDM :: method_result
  isGroupDM :: method_result

datatype visual_style = Overlay | Toast | Off

datatype overlay_mode = Row | Current

record world =
  hasChannel :: "string \<Rightarrow> bool"
  getChannel :: "string \<Rightarrow> channel option"
  getChannelId :: "string option"
  instantSwitch :: bool
  visualStyle :: visual_style
  overlayMode :: overlay_mode
  overlayRowLength :: int
  IS_MAC :: bool

subsection \<open>The plugin state and its observable effects\<close>

text \<open>
  Calls that leave the module are recorded, in order, in the field \<open>effects\<close>:
  \<open>Navigate\<close> is \<^verbatim>\<open>ChannelRouter.transitionToChannel\<close>, \<open>Persist\<close> is
  \<^verbatim>\<open>DataStore.set(STORAGE_KEY, _)\<close>, \<open>OpenModal\<close> and \<open>CloseModal\<close> are the overlay's
  \<^verbatim>\<open>openModal\<close> and \<^verbatim>\<open>closeModal\<close>, \<open>ShowToast\<close> is \<^verbatim>\<open>Toasts.show\<close>. \<open>Promote\<close> marks an
  entry into \<^verbatim>\<open>pushChannelToFront\<close>, so that the number of its invocations can be read
  from the trace.
\<close>

datatype toast = Switching string | Cleared

datatype effect =
    Promote string
  | Persist "string list"
  | Navigate string
  | OpenModal
  | CloseModal
  | ShowToast toast

record plugin =
  mruDmChannelIds :: "string list"
  isCyclingSessionActive :: bool
  suppressMruWhileCycling :: bool
  cycleSnapshot :: "string list"
  cycleIndex :: int
  activeToastId :: bool
  overlayModalKey :: bool
  effects :: "effect list"

definition MAX_HISTORY :: nat where
  "MAX_HISTORY = 50"

definition initial :: plugin where
  "initial = \<lparr> mruDmChannelIds = [], isCyclingSessionActive = False,
     suppressMruWhileCycling = False, cycleSnapshot = [], cycleIndex = - 1,
     activeToastId = False, overlayModalKey = False, effects = [] \<rparr>"

definition emit :: "effect \<Rightarrow> plugin \<Rightarrow> plugin" where
  "emit e s = s\<lparr> effects := effects s @ [e] \<rparr>"

fun promoteCalls :: "effect list \<Rightarrow> string list" where
  "promoteCalls [] = []"
| "promoteCalls (Promote c # es) = c # promoteCalls es"
| "promoteCalls (e # es) = promoteCalls es"

subsection \<open>JavaScript primitives\<close>

text \<open>\<^verbatim>\<open>xs[i]\<close> is \<^verbatim>\<open>undefined\<close> out of range; \<^verbatim>\<open>undefined\<close> and \<^verbatim>\<open>""\<close> are falsy.\<close>

definition js_index :: "'a list \<Rightarrow> int \<Rightarrow> 'a option" where
  "js_index xs i = (if 0 \<le> i \<and> i < int (length xs) then Some (xs ! nat i) else None)"

text \<open>\<^verbatim>\<open>a % b\<close> takes the sign of the dividend.\<close>

definition js_rem :: "int \<Rightarrow> int \<Rightarrow> int" where
  "js_rem a b = sgn a * (\<bar>a\<bar> mod \<bar>b\<bar>)"

text \<open>\<^verbatim>\<open>xs.slice(a, b)\<close>: a negative bound counts from the end, and both are clipped.\<close>

definition js_slice :: "'a list \<Rightarrow> int \<Rightarrow> int \<Rightarrow> 'a list" where
  "js_slice xs a b =
     (let n = int (length xs);
          lo = (if a < 0 then max (n + a) 0 else min a n);
          hi = (if b < 0 then max (n + b) 0 else min b n)
      in take (nat (hi - lo)) (drop (nat lo) xs))"

subsection \<open>History Store\<close>

definition isDirectMessageChannel :: "world \<Rightarrow> string option \<Rightarrow> bool" where
  "isDirectMessageChannel w channelId =
     (case channelId of
        None \<Rightarrow> False
      | Some c \<Rightarrow>
          if c = [] then False
          else (case getChannel w c of
                  None \<Rightarrow> False
                | Some ch \<Rightarrow>
                    (case isDM ch of
                       Throws \<Rightarrow> False
                     | Returns True \<Rightarrow> True
                     | _ \<Rightarrow> (case isGroupDM ch of Returns True \<Rightarrow> True | _ \<Rightarrow> False))))"

definition pushChannelToFront :: "string \<Rightarrow> plugin \<Rightarrow> plugin" where
  "pushChannelToFront channelId s =
     (let filtered = filter (\<lambda>c. c \<noteq> channelId) (mruDmChannelIds s);
          unshifted = channelId # filtered;
          truncated = (if length unshifted > MAX_HISTORY then take MAX_HISTORY unshifted
                       else unshifted)
      in s\<lparr> mruDmChannelIds := truncated,
            effects := effects s @ [Promote channelId, Persist truncated] \<rparr>)"

text \<open>
  The \<^verbatim>\<open>for\<close> loop of \<^verbatim>\<open>sanitizeHistory\<close>, with its two accumulators: the set \<^verbatim>\<open>seen\<close>
  and the array \<^verbatim>\<open>result\<close>. The \<^verbatim>\<open>break\<close> is the branch that returns without recursing.
\<close>

fun sanitizeLoop :: "world \<Rightarrow> string list \<Rightarrow> string set \<Rightarrow> string list \<Rightarrow> string list" where
  "sanitizeLoop w [] seen result = result"
| "sanitizeLoop w (c # rest) seen result =
     (if c = [] then sanitizeLoop w rest seen result
      else if c \<in> seen then sanitizeLoop w rest seen result
      else if \<not> hasChannel w c then sanitizeLoop w rest seen result
      else if \<not> isDirectMessageChannel w (Some c) then sanitizeLoop w rest seen result
      else if length (result @ [c]) \<ge> MAX_HISTORY then result @ [c]
      else sanitizeLoop w rest (insert c seen) (result @ [c]))"

definition sanitizeHistory :: "world \<Rightarrow> string list \<Rightarrow> string list" where
  "sanitizeHistory w ids = sanitizeLoop w ids {} []"

subsection \<open>Indicator\<close>

text \<open>
  \<^verbatim>\<open>overlayModalKey\<close> and \<^verbatim>\<open>activeToastId\<close> are kept as booleans (set or \<^verbatim>\<open>null\<close>): the
  key and the identifier come from the host and are only ever tested for being there.
  \<^verbatim>\<open>renderOverlay\<close> includes \<^verbatim>\<open>openOverlayModal\<close>; the re-render callback it then calls
  belongs to the rendering library and leaves no trace here.
\<close>

definition renderOverlay :: "world \<Rightarrow> plugin \<Rightarrow> plugin" where
  "renderOverlay w s =
     (if visualStyle w \<noteq> Overlay then s
      else if \<not> isCyclingSessionActive s then s
      else if overlayModalKey s then s
      else emit OpenModal (s\<lparr> overlayModalKey := True \<rparr>))"

definition unmountOverlay :: "plugin \<Rightarrow> plugin" where
  "unmountOverlay s =
     (if \<not> overlayModalKey s then s
      else (emit CloseModal s)\<lparr> overlayModalKey := False \<rparr>)"

definition showCycleToast :: "world \<Rightarrow> plugin \<Rightarrow> plugin" where
  "showCycleToast w s =
     (if visualStyle w \<noteq> Toast then s
      else (case js_index (cycleSnapshot s) (cycleIndex s) of
              None \<Rightarrow> s
            | Some c \<Rightarrow>
                if c = [] then s
                else emit (ShowToast (Switching c)) (s\<lparr> activeToastId := True \<rparr>)))"

subsection \<open>Cycle Session\<close>

datatype direction = Forward | Backward

fun delta :: "direction \<Rightarrow> int" where
  "delta Forward = 1"
| "delta Backward = - 1"

definition beginCycleSession :: "world \<Rightarrow> plugin \<Rightarrow> plugin" where
  "beginCycleSession w s =
     (if isCyclingSessionActive s then s
      else
        let currentId = getChannelId w;
            anchor = (case currentId of
                        None \<Rightarrow> []
                      | Some c \<Rightarrow> if isDirectMessageChannel w currentId then [c] else [])
        in s\<lparr> isCyclingSessionActive := True,
              suppressMruWhileCycling := True,
              cycleSnapshot := sanitizeHistory w (anchor @ mruDmChannelIds s),
              cycleIndex := 0 \<rparr>)"

definition stepCycle :: "world \<Rightarrow> direction \<Rightarrow> plugin \<Rightarrow> plugin" where
  "stepCycle w d s =
     (if \<not> isCyclingSessionActive s then s
      else if length (cycleSnapshot s) = 0 then s
      else
        let total = int (length (cycleSnapshot s)) in
        if total \<le> 1 then s
        else
          let s1 = s\<lparr> cycleIndex := js_rem (cycleIndex s + delta d + total) total \<rparr> in
          (case js_index (cycleSnapshot s1) (cycleIndex s1) of
             None \<Rightarrow> s1
           | Some targetId \<Rightarrow>
               if targetId = [] then s1
               else if \<not> hasChannel w targetId then s1
               else
                 let s2 = (if instantSwitch w then emit (Navigate targetId) s1 else s1) in
                 (case visualStyle w of
                    Overlay \<Rightarrow> renderOverlay w s2
                  | Toast \<Rightarrow> showCycleToast w s2
                  | Off \<Rightarrow> s2)))"

definition endCycleSession :: "world \<Rightarrow> plugin \<Rightarrow> plugin" where
  "endCycleSession w s =
     (if \<not> isCyclingSessionActive s then s
      else
        let s1 = s\<lparr> isCyclingSessionActive := False, suppressMruWhileCycling := False \<rparr>;
            s2 = (if 0 \<le> cycleIndex s1 \<and> cycleIndex s1 < int (length (cycleSnapshot s1))
                  then (case js_index (cycleSnapshot s1) (cycleIndex s1) of
                          None \<Rightarrow> s1
                        | Some selected \<Rightarrow>
                            if selected = [] then s1
                            else pushChannelToFront selected
                                   (if instantSwitch w then s1
                                    else emit (Navigate selected) s1))
                  else s1);
            s3 = s2\<lparr> cycleSnapshot := [], cycleIndex := - 1, activeToastId := False \<rparr>
        in if visualStyle w = Overlay then unmountOverlay s3 else s3)"

subsection \<open>The other handlers\<close>

text \<open>
  The settings button (\<^verbatim>\<open>clearMru\<close>). Its \<^verbatim>\<open>onClick\<close> assigns the three variables before
  its only \<^verbatim>\<open>await\<close>; the toast follows the write.
\<close>

definition clearMru :: "plugin \<Rightarrow> plugin" where
  "clearMru s =
     emit (ShowToast Cleared)
       (emit (Persist [])
          (s\<lparr> mruDmChannelIds := [], cycleSnapshot := [], cycleIndex := - 1 \<rparr>))"

definition GUILD_SELECT :: "string option \<Rightarrow> plugin \<Rightarrow> plugin" where
  "GUILD_SELECT guildId s =
     (if \<not> isCyclingSessionActive s then s
      else (case guildId of
              None \<Rightarrow> s
            | Some g \<Rightarrow>
                if g = [] then s
                else (case js_index (cycleSnapshot s) (cycleIndex s) of
                        None \<Rightarrow> s
                      | Some targetId \<Rightarrow>
                          if targetId = [] then s else emit (Navigate targetId) s)))"

definition CHANNEL_SELECT :: "world \<Rightarrow> string option \<Rightarrow> plugin \<Rightarrow> plugin" where
  "CHANNEL_SELECT w channelId s =
     (if suppressMruWhileCycling s then s
      else (case channelId of
              None \<Rightarrow> s
            | Some c \<Rightarrow>
                if c = [] then s
                else if \<not> isDirectMessageChannel w channelId then s
                else pushChannelToFront c s))"

text \<open>
  \<^verbatim>\<open>start\<close>, from the point where \<^verbatim>\<open>DataStore.get\<close> has answered: \<open>None\<close> is an answer
  that is not an array. Registering and removing the keyboard listeners, in \<^verbatim>\<open>start\<close> and
  \<^verbatim>\<open>stop\<close>, is left to the host: the listeners are the signals \<open>KeyDown\<close> and \<open>KeyUp\<close> below.
\<close>

definition start :: "world \<Rightarrow> string list option \<Rightarrow> plugin \<Rightarrow> plugin" where
  "start w saved s =
     (let s1 = s\<lparr> mruDmChannelIds :=
                   (case saved of None \<Rightarrow> [] | Some ids \<Rightarrow> sanitizeHistory w ids) \<rparr>
      in (case getChannelId w of
            None \<Rightarrow> s1
          | Some c \<Rightarrow> if isDirectMessageChannel w (getChannelId w)
                      then pushChannelToFront c s1 else s1))"

definition stop :: "world \<Rightarrow> plugin \<Rightarrow> plugin" where
  "stop w s =
     (let s1 = s\<lparr> isCyclingSessionActive := False, suppressMruWhileCycling := False,
                  cycleSnapshot := [], cycleIndex := - 1, activeToastId := False \<rparr>
      in if visualStyle w = Overlay then unmountOverlay s1 else s1)"

record key_event =
  key :: string
  ctrlKey :: bool
  metaKey :: bool
  shiftKey :: bool

definition onKeyDown :: "world \<Rightarrow> key_event \<Rightarrow> plugin \<Rightarrow> plugin" where
  "onKeyDown w e s =
     (if \<not> (ctrlKey e \<or> (IS_MAC w \<and> metaKey e)) then s
      else if key e = ''Tab''
      then stepCycle w (if shiftKey e then Backward else Forward)
             (if \<not> isCyclingSessionActive s then beginCycleSession w s else s)
      else s)"

definition onKeyUp :: "world \<Rightarrow> key_event \<Rightarrow> plugin \<Rightarrow> plugin" where
  "onKeyUp w e s =
     (if key e = ''Control'' \<or> (IS_MAC w \<and> key e = ''Meta'')
      then (if \<not> (ctrlKey e \<or> metaKey e) then endCycleSession w s else s)
      else s)"

subsection \<open>Signals\<close>

text \<open>
  The operations of the module as one type, so that a gesture is a list of signals,
  each delivered in the world of its moment.
\<close>

datatype signal =
    Begin
  | Step direction
  | End
  | ChannelSelect "string option"
  | GuildSelect "string option"
  | Clear
  | Start "string list option"
  | Stop
  | KeyDown key_event
  | KeyUp key_event

fun deliver :: "world \<Rightarrow> signal \<Rightarrow> plugin \<Rightarrow> plugin" where
  "deliver w Begin s = beginCycleSession w s"
| "deliver w (Step d) s = stepCycle w d s"
| "deliver w End s = endCycleSession w s"
| "deliver w (ChannelSelect c) s = CHANNEL_SELECT w c s"
| "deliver w (GuildSelect g) s = GUILD_SELECT g s"
| "deliver w Clear s = clearMru s"
| "deliver w (Start saved) s = start w saved s"
| "deliver w Stop s = stop w s"
| "deliver w (KeyDown e) s = onKeyDown w e s"
| "deliver w (KeyUp e) s = onKeyUp w e s"

fun run :: "(world \<times> signal) list \<Rightarrow> plugin \<Rightarrow> plugin" where
  "run [] s = s"
| "run ((w, sg) # rest) s = run rest (deliver w sg s)"

subsection \<open>Pagination of the overlay\<close>

text \<open>
  The part of \<^verbatim>\<open>OverlayContent\<close> that decides what is shown. In \<^verbatim>\<open>current\<close> mode the
  list holds \<^verbatim>\<open>cycleSnapshot[cycleIndex]\<close>, which may be \<^verbatim>\<open>undefined\<close>, hence the options.
\<close>

record overlay_page =
  pageItems :: "string option list"
  currentPage :: int
  pageCount :: int

definition OverlayContent :: "world \<Rightarrow> plugin \<Rightarrow> overlay_page" where
  "OverlayContent w s =
     (let mode = overlayMode w;
          maxCount = max 3 (min 7 (overlayRowLength w));
          pageSize = (if mode = Current then 1 else maxCount);
          totalSlots = (if mode = Current then 1 else pageSize * 2);
          visibleList = (if mode = Current
                         then [js_index (cycleSnapshot s) (cycleIndex s)]
                         else map Some (js_slice (cycleSnapshot s) 0 totalSlots));
          pc = (if mode \<noteq> Current
                then (if int (length visibleList) > pageSize then 2 else 1) else 1);
          cp = (if mode \<noteq> Current
                then min (pc - 1)
                       ((if cycleIndex s \<ge> 0 then cycleIndex s else 0) div pageSize)
                else 0);
          startIdx = cp * pageSize;
          endIdx = min (startIdx + pageSize) (int (length visibleList))
      in \<lparr> pageItems = js_slice visibleList startIdx endIdx,
           currentPage = cp, pageCount = pc \<rparr>)"

text \<open>
  The row pagination as the specification words it, over a snapshot, a cursor and a
  page size: the working list is the first \<open>min (2 \<times> pageSize) |snapshot|\<close> entries, there
  are two pages when it exceeds one page, the current page is
  \<open>min (pageCount - 1) (floor (cursor / pageSize))\<close>, and the window is the slice from
  \<open>currentPage \<times> pageSize\<close> to \<open>min ((currentPage + 1) \<times> pageSize) |workingList|\<close>.
\<close>

definition spec_workingList :: "string list \<Rightarrow> nat \<Rightarrow> string list" where
  "spec_workingList snapshot pageSize = take (min (2 * pageSize) (length snapshot)) snapshot"

definition spec_pageCount :: "string list \<Rightarrow> nat \<Rightarrow> nat" where
  "spec_pageCount snapshot pageSize =
     (if length (spec_workingList snapshot pageSize) > pageSize then 2 else 1)"

definition spec_currentPage :: "string list \<Rightarrow> nat \<Rightarrow> nat \<Rightarrow> nat" where
  "spec_currentPage snapshot cursor pageSize =
     min (spec_pageCount snapshot pageSize - 1) (cursor div pageSize)"

definition spec_window :: "string list \<Rightarrow> nat \<Rightarrow> nat \<Rightarrow> string list" where
  "spec_window snapshot cursor pageSize =
     (let wl = spec_workingList snapshot pageSize;
          lo = spec_currentPage snapshot cursor pageSize * pageSize;
          hi = min ((spec_currentPage snapshot cursor pageSize + 1) * pageSize) (length wl)
      in map (\<lambda>i. wl ! i) [lo ..< hi])"

text \<open>Keeping the first occurrence of each element, in order.\<close>

fun keep_first :: "'a list \<Rightarrow> 'a list" where
  "keep_first [] = []"
| "keep_first (x # xs) = x # keep_first (filter (\<lambda>y. y \<noteq> x) xs)"

subsection \<open>Predicates on signals and sessions\<close>

text \<open>
  \<open>inSession\<close> picks the signals of an open gesture: a step, or a \<^verbatim>\<open>CHANNEL_SELECT\<close>
  arriving meanwhile. \<open>sessionOpen\<close> is what holds of the state from \<^verbatim>\<open>beginCycleSession\<close>
  until \<^verbatim>\<open>endCycleSession\<close>: both flags are set, the cursor is an index of the snapshot
  (or 0 when the snapshot is empty), and no snapshot entry is the empty string.
\<close>

fun inSession :: "signal \<Rightarrow> bool" where
  "inSession (Step d) = True"
| "inSession (ChannelSelect c) = True"
| "inSession sg = False"

definition sessionOpen :: "plugin \<Rightarrow> bool" where
  "sessionOpen s =
     (isCyclingSessionActive s \<and> suppressMruWhileCycling s \<and> 0 \<le> cycleIndex s
      \<and> (cycleSnapshot s = [] \<or> cycleIndex s < int (length (cycleSnapshot s)))
      \<and> [] \<notin> set (cycleSnapshot s))"

subsection \<open>Example worlds and states\<close>

text \<open>
  A directory with the three direct conversations \<open>A\<close>, \<open>B\<close> and \<open>C\<close>, of which \<open>A\<close>
  is the selected one; a directory with no conversation at all; and a history holding
  \<open>B\<close> and \<open>C\<close>.
\<close>

definition dmChannel :: channel where
  "dmChannel = \<lparr> isDM = Returns True, isGroupDM = Returns False \<rparr>"

definition world_abc :: world where
  "world_abc = \<lparr> hasChannel = (\<lambda>c. c \<in> set [''A'', ''B'', ''C'']),
     getChannel = (\<lambda>c. if c \<in> set [''A'', ''B'', ''C''] then Some dmChannel else None),
     getChannelId = Some ''A'', instantSwitch = False, visualStyle = Overlay,
     overlayMode = Row, overlayRowLength = 5, IS_MAC = False \<rparr>"

definition world_empty :: world where
  "world_empty = \<lparr> hasChannel = (\<lambda>c. False), getChannel = (\<lambda>c. None),
     getChannelId = None, instantSwitch = False, visualStyle = Overlay,
     overlayMode = Row, overlayRowLength = 5, IS_MAC = False \<rparr>"

definition history_bc :: plugin where
  "history_bc = initial\<lparr> mruDmChannelIds := [''B'', ''C''] \<rparr>"

text \<open>An open session over eight conversations, with the cursor on the seventh.\<close>

definition eight_open :: plugin where
  "eight_open = initial\<lparr> isCyclingSessionActive := True, suppressMruWhileCycling := True,
     cycleSnapshot := [''a'', ''b'', ''c'', ''d'', ''e'', ''f'', ''g'', ''h''],
     cycleIndex := 6 \<rparr>"

section \<open>History Store: promote\<close>


lemma promoteCalls_append: "promoteCalls (xs @ ys) = promoteCalls xs @ promoteCalls ys"
  by (induction xs rule: promoteCalls.induct) simp_all

lemma push_mru:
  "mruDmChannelIds (pushChannelToFront c s) =
     take MAX_HISTORY (c # filter (\<lambda>x. x \<noteq> c) (mruDmChannelIds s))"
  by (simp add: pushChannelToFront_def Let_def)

lemma push_frame:
  "cycleSnapshot (pushChannelToFront c s) = cycleSnapshot s"
  "cycleIndex (pushChannelToFront c s) = cycleIndex s"
  "isCyclingSessionActive (pushChannelToFront c s) = isCyclingSessionActive s"
  "suppressMruWhileCycling (pushChannelToFront c s) = suppressMruWhileCycling s"
  "activeToastId (pushChannelToFront c s) = activeToastId s"
  "overlayModalKey (pushChannelToFront c s) = overlayModalKey s"
  by (simp_all add: pushChannelToFront_def Let_def)

lemma push_promoteCalls:
  "promoteCalls (effects (pushChannelToFront c s)) = promoteCalls (effects s) @ [c]"
  by (simp add: pushChannelToFront_def Let_def promoteCalls_append)

lemma push_length: "length (mruDmChannelIds (pushChannelToFront c s)) \<le> MAX_HISTORY"
  by (simp add: push_mru)

lemma push_front: "take (Suc 0) (mruDmChannelIds (pushChannelToFront c s)) = [c]"
  by (simp add: push_mru MAX_HISTORY_def)

lemma count_list_filter_neq: "count_list (filter (\<lambda>x. x \<noteq> c) xs) c = 0"
  by (induction xs) simp_all

lemma count_list_take_le: "count_list (take n xs) c \<le> count_list xs c"
proof (induction xs arbitrary: n)
  case Nil
  show ?case by simp
next
  case (Cons x xs)
  show ?case
  proof (cases n)
    case 0
    then show ?thesis by simp
  next
    case (Suc m)
    with Cons [of m] show ?thesis by simp
  qed
qed

lemma push_once: "count_list (mruDmChannelIds (pushChannelToFront c s)) c = 1"
proof -
  have "count_list (take (MAX_HISTORY - 1) (filter (\<lambda>x. x \<noteq> c) (mruDmChannelIds s))) c = 0"
    using count_list_take_le [of "MAX_HISTORY - 1" "filter (\<lambda>x. x \<noteq> c) (mruDmChannelIds s)" c]
    by (simp add: count_list_filter_neq)
  then show ?thesis
    by (simp add: push_mru MAX_HISTORY_def take_Cons')
qed

lemma fold_push_length:
  "length (mruDmChannelIds s) \<le> MAX_HISTORY \<Longrightarrow>
   length (mruDmChannelIds (fold pushChannelToFront cs s)) \<le> MAX_HISTORY"
  by (induction cs arbitrary: s) (simp_all add: push_length)

lemma fold_push_snoc:
  "k < length cs \<Longrightarrow>
   fold pushChannelToFront (take (Suc k) cs) s =
     pushChannelToFront (cs ! k) (fold pushChannelToFront (take k cs) s)"
  by (simp add: take_Suc_conv_app_nth)

text \<open>
  C6. After any finite sequence of \<^verbatim>\<open>pushChannelToFront\<close> calls on a history that is within
  the bound, the history has at most \<open>MAX_HISTORY\<close> entries; and after each call of the
  sequence the history is within the bound, the promoted identifier is its first entry
  and occurs in it exactly once.
\<close>

theorem promote_bound_front_once:
  assumes "length (mruDmChannelIds s) \<le> MAX_HISTORY"
  shows "length (mruDmChannelIds (fold pushChannelToFront cs s)) \<le> MAX_HISTORY
    \<and> (\<forall>k < length cs.
          length (mruDmChannelIds (fold pushChannelToFront (take (Suc k) cs) s)) \<le> MAX_HISTORY
        \<and> take 1 (mruDmChannelIds (fold pushChannelToFront (take (Suc k) cs) s)) = [cs ! k]
        \<and> count_list (mruDmChannelIds (fold pushChannelToFront (take (Suc k) cs) s)) (cs ! k) = 1)"
  using assms
  by (simp add: fold_push_length fold_push_snoc push_length push_front push_once)

theorem promote_bound_front_once_witness:
  "length (mruDmChannelIds history_bc) \<le> MAX_HISTORY
   \<and> length (mruDmChannelIds (fold pushChannelToFront [''A'', ''C'', ''A''] history_bc)) \<le> MAX_HISTORY
   \<and> take 1 (mruDmChannelIds (fold pushChannelToFront [''A'', ''C''] history_bc)) = [''C'']
   \<and> count_list (mruDmChannelIds (fold pushChannelToFront [''A'', ''C''] history_bc)) ''C'' = 1
   \<and> mruDmChannelIds (fold pushChannelToFront [''A'', ''C'', ''A''] history_bc) = [''A'', ''C'', ''B'']"
proof -
  have h: "length (mruDmChannelIds history_bc) \<le> MAX_HISTORY"
    by (simp add: history_bc_def initial_def MAX_HISTORY_def)
  have v: "mruDmChannelIds (fold pushChannelToFront [''A'', ''C'', ''A''] history_bc) = [''A'', ''C'', ''B'']"
    by (simp add: push_mru history_bc_def initial_def MAX_HISTORY_def)
  note t = promote_bound_front_once [OF h, of "[''A'', ''C'', ''A'']"]
  from t have a: "length (mruDmChannelIds (fold pushChannelToFront [''A'', ''C'', ''A''] history_bc)) \<le> MAX_HISTORY"
    by (rule conjunct1)
  from t have "\<forall>k < length [''A'', ''C'', ''A''].
          length (mruDmChannelIds (fold pushChannelToFront (take (Suc k) [''A'', ''C'', ''A'']) history_bc)) \<le> MAX_HISTORY
        \<and> take 1 (mruDmChannelIds (fold pushChannelToFront (take (Suc k) [''A'', ''C'', ''A'']) history_bc)) = [[''A'', ''C'', ''A''] ! k]
        \<and> count_list (mruDmChannelIds (fold pushChannelToFront (take (Suc k) [''A'', ''C'', ''A'']) history_bc)) ([''A'', ''C'', ''A''] ! k) = 1"
    by (rule conjunct2)
  from this [rule_format, of 1]
  have b: "take 1 (mruDmChannelIds (fold pushChannelToFront [''A'', ''C''] history_bc)) = [''C'']
    \<and> count_list (mruDmChannelIds (fold pushChannelToFront [''A'', ''C''] history_bc)) ''C'' = 1"
    by simp
  from h a b v show ?thesis by blast
qed


section \<open>History Store: sanitize\<close>

lemma keep_first_set: "set (keep_first xs) = set xs"
  by (induction xs rule: keep_first.induct) auto

lemma keep_first_distinct: "distinct (keep_first xs)"
  by (induction xs rule: keep_first.induct) (auto simp: keep_first_set)

lemma keep_first_subseq: "subseq (keep_first xs) xs"
proof (induction xs rule: keep_first.induct)
  case 1
  show ?case by simp
next
  case (2 x xs)
  have "subseq (filter (\<lambda>y. y \<noteq> x) xs) xs" by simp
  with 2 have "subseq (keep_first (filter (\<lambda>y. y \<noteq> x) xs)) xs"
    by (rule subseq_order.trans)
  then show ?case by simp
qed

lemma take_whole_prefix: "length ys = n \<Longrightarrow> take n (ys @ zs) = ys"
  by simp

lemma sanitizeLoop_eq:
  "length result < MAX_HISTORY \<Longrightarrow> seen = set result \<Longrightarrow>
   sanitizeLoop w ids seen result =
     take MAX_HISTORY (result @ keep_first (filter
       (\<lambda>c. (c \<noteq> [] \<and> hasChannel w c \<and> isDirectMessageChannel w (Some c)) \<and> c \<notin> set result) ids))"
proof (induction ids arbitrary: seen result)
  case Nil
  then show ?case by simp
next
  case (Cons c rest)
  let ?ok = "\<lambda>c. c \<noteq> [] \<and> hasChannel w c \<and> isDirectMessageChannel w (Some c)"
  show ?case
  proof (cases "?ok c \<and> c \<notin> set result")
    case False
    with Cons.prems Cons.IH [of result seen] show ?thesis by auto
  next
    case True
    have flt: "filter (\<lambda>y. y \<noteq> c) (filter (\<lambda>c. ?ok c \<and> c \<notin> set result) rest)
             = filter (\<lambda>x. ?ok x \<and> x \<notin> set (result @ [c])) rest"
      by (auto intro: filter_cong)
    show ?thesis
    proof (cases "length (result @ [c]) \<ge> MAX_HISTORY")
      case full: True
      with Cons.prems have "length (result @ [c]) = MAX_HISTORY" by simp
      then have "take MAX_HISTORY ((result @ [c]) @ zs) = result @ [c]" for zs
        by (rule take_whole_prefix)
      from this [of "keep_first (filter (\<lambda>y. y \<noteq> c) (filter (\<lambda>c. ?ok c \<and> c \<notin> set result) rest))"]
      show ?thesis using True full Cons.prems by simp
    next
      case room: False
      then have "length (result @ [c]) < MAX_HISTORY" by simp
      from Cons.IH [OF this, of "insert c seen"] Cons.prems
      have "sanitizeLoop w rest (insert c seen) (result @ [c]) =
            take MAX_HISTORY ((result @ [c]) @ keep_first (filter
              (\<lambda>x. ?ok x \<and> x \<notin> set (result @ [c])) rest))"
        by simp
      with True room Cons.prems flt show ?thesis by simp
    qed
  qed
qed

lemma sanitizeHistory_eq:
  "sanitizeHistory w ids =
     take MAX_HISTORY (keep_first (filter
       (\<lambda>c. c \<noteq> [] \<and> hasChannel w c \<and> isDirectMessageChannel w (Some c)) ids))"
  using sanitizeLoop_eq [of "[]" "{}" w ids]
  by (simp add: sanitizeHistory_def MAX_HISTORY_def)

lemma sanitizeHistory_distinct: "distinct (sanitizeHistory w ids)"
  by (simp add: sanitizeHistory_eq keep_first_distinct)

lemma sanitizeHistory_length: "length (sanitizeHistory w ids) \<le> MAX_HISTORY"
  by (simp add: sanitizeHistory_eq)

lemma sanitizeHistory_member:
  "c \<in> set (sanitizeHistory w ids) \<Longrightarrow>
   c \<in> set ids \<and> c \<noteq> [] \<and> hasChannel w c \<and> isDirectMessageChannel w (Some c)"
proof -
  assume "c \<in> set (sanitizeHistory w ids)"
  then have "c \<in> set (keep_first (filter
       (\<lambda>c. c \<noteq> [] \<and> hasChannel w c \<and> isDirectMessageChannel w (Some c)) ids))"
    unfolding sanitizeHistory_eq by (rule in_set_takeD)
  then show ?thesis by (simp add: keep_first_set)
qed

lemma sanitizeHistory_subseq: "subseq (sanitizeHistory w ids) ids"
proof -
  let ?f = "filter (\<lambda>c. c \<noteq> [] \<and> hasChannel w c \<and> isDirectMessageChannel w (Some c)) ids"
  have "subseq (take MAX_HISTORY (keep_first ?f)) (keep_first ?f)"
    by (rule sublist_imp_subseq) simp
  also have "subseq (keep_first ?f) ?f" by (rule keep_first_subseq)
  also have "subseq ?f ids" by simp
  finally show ?thesis by (simp add: sanitizeHistory_eq)
qed

text \<open>
  C3. For every input sequence of strings, \<^verbatim>\<open>sanitizeHistory\<close> returns a list without
  repetition that is a subsequence of the input (the relative order is kept); it is the
  first \<open>MAX_HISTORY\<close> entries of what is left of the input when the entries that are
  empty, unknown to the directory or not eligible are dropped and of each duplicate only
  the first occurrence is kept; so each of its entries is non-empty, exists and is
  eligible, and it has at most \<open>MAX_HISTORY\<close> entries.
\<close>

theorem sanitizeHistory_dedup_filter_bound:
  "distinct (sanitizeHistory w ids)
   \<and> subseq (sanitizeHistory w ids) ids
   \<and> sanitizeHistory w ids =
       take MAX_HISTORY (keep_first (filter
         (\<lambda>c. c \<noteq> [] \<and> hasChannel w c \<and> isDirectMessageChannel w (Some c)) ids))
   \<and> (\<forall>c \<in> set (sanitizeHistory w ids).
         c \<noteq> [] \<and> hasChannel w c \<and> isDirectMessageChannel w (Some c))
   \<and> length (sanitizeHistory w ids) \<le> MAX_HISTORY"
proof (intro conjI ballI)
  show "distinct (sanitizeHistory w ids)" by (rule sanitizeHistory_distinct)
  show "subseq (sanitizeHistory w ids) ids" by (rule sanitizeHistory_subseq)
  show "sanitizeHistory w ids =
       take MAX_HISTORY (keep_first (filter
         (\<lambda>c. c \<noteq> [] \<and> hasChannel w c \<and> isDirectMessageChannel w (Some c)) ids))"
    by (rule sanitizeHistory_eq)
  show "length (sanitizeHistory w ids) \<le> MAX_HISTORY" by (rule sanitizeHistory_length)
next
  fix c assume c: "c \<in> set (sanitizeHistory w ids)"
  from sanitizeHistory_member [OF c] show "c \<noteq> []" by simp
  from sanitizeHistory_member [OF c] show "hasChannel w c" by simp
  from sanitizeHistory_member [OF c] show "isDirectMessageChannel w (Some c)" by simp
qed


lemma isDirectMessageChannel_abc:
  "isDirectMessageChannel world_abc (Some c) = (c \<in> set [''A'', ''B'', ''C''])"
  by (auto simp add: isDirectMessageChannel_def world_abc_def dmChannel_def)

lemma sanitizeHistory_example:
  "sanitizeHistory world_abc [''B'', '''', ''X'', ''A'', ''B'', ''C''] = [''B'', ''A'', ''C'']"
  by (simp add: sanitizeHistory_def isDirectMessageChannel_abc MAX_HISTORY_def)
     (simp add: world_abc_def)

theorem sanitizeHistory_dedup_filter_bound_witness:
  "sanitizeHistory world_abc [''B'', '''', ''X'', ''A'', ''B'', ''C''] = [''B'', ''A'', ''C'']
   \<and> distinct (sanitizeHistory world_abc [''B'', '''', ''X'', ''A'', ''B'', ''C''])
   \<and> subseq (sanitizeHistory world_abc [''B'', '''', ''X'', ''A'', ''B'', ''C''])
         [''B'', '''', ''X'', ''A'', ''B'', ''C'']
   \<and> hasChannel world_abc ''A'' \<and> isDirectMessageChannel world_abc (Some ''A'')
   \<and> length (sanitizeHistory world_abc [''B'', '''', ''X'', ''A'', ''B'', ''C'']) \<le> MAX_HISTORY"
proof -
  have "''A'' \<in> set (sanitizeHistory world_abc [''B'', '''', ''X'', ''A'', ''B'', ''C''])"
    by (simp add: sanitizeHistory_example)
  with sanitizeHistory_dedup_filter_bound [of world_abc "[''B'', '''', ''X'', ''A'', ''B'', ''C'']"]
    sanitizeHistory_example
  show ?thesis by blast
qed
section \<open>Cycle Session\<close>

lemma begin_abc:
  "beginCycleSession world_abc history_bc =
     history_bc\<lparr> isCyclingSessionActive := True, suppressMruWhileCycling := True,
       cycleSnapshot := [''A'', ''B'', ''C''], cycleIndex := 0 \<rparr>"
proof -
  have "sanitizeHistory world_abc [''A'', ''B'', ''C''] = [''A'', ''B'', ''C'']"
    by (simp add: sanitizeHistory_def isDirectMessageChannel_abc MAX_HISTORY_def)
       (simp add: world_abc_def)
  moreover have "getChannelId world_abc = Some ''A''" by (simp add: world_abc_def)
  ultimately show ?thesis
    by (simp add: beginCycleSession_def history_bc_def initial_def isDirectMessageChannel_abc)
qed

text \<open>
  C7. In an Active session, \<^verbatim>\<open>pushChannelToFront\<close> with any identifier, once or any number
  of times, leaves \<^verbatim>\<open>cycleSnapshot\<close> as it was, contents and order, as well as the cursor
  and the session's being Active. (Every array that \<^verbatim>\<open>cycleSnapshot\<close> is bound to is freshly
  built, by \<^verbatim>\<open>sanitizeHistory\<close> or as a literal, and \<^verbatim>\<open>pushChannelToFront\<close> mutates only the
  array that its own \<^verbatim>\<open>filter\<close> has just built: the two variables never share an array.)
\<close>

theorem snapshot_frame:
  assumes "isCyclingSessionActive s"
  shows "cycleSnapshot (pushChannelToFront c s) = cycleSnapshot s
    \<and> cycleIndex (pushChannelToFront c s) = cycleIndex s
    \<and> isCyclingSessionActive (pushChannelToFront c s)
    \<and> cycleSnapshot (fold pushChannelToFront cs s) = cycleSnapshot s"
proof -
  have "cycleSnapshot (fold pushChannelToFront cs t) = cycleSnapshot t" for t
    by (induction cs arbitrary: t) (simp_all add: push_frame)
  with assms show ?thesis by (simp add: push_frame)
qed


theorem snapshot_frame_witness:
  "isCyclingSessionActive (beginCycleSession world_abc history_bc)
   \<and> cycleSnapshot (beginCycleSession world_abc history_bc) = [''A'', ''B'', ''C'']
   \<and> mruDmChannelIds (pushChannelToFront ''Z'' (beginCycleSession world_abc history_bc))
       = [''Z'', ''B'', ''C'']
   \<and> cycleSnapshot (pushChannelToFront ''Z'' (beginCycleSession world_abc history_bc))
       = [''A'', ''B'', ''C'']"
proof -
  have a: "isCyclingSessionActive (beginCycleSession world_abc history_bc)"
    by (simp add: begin_abc)
  have b: "cycleSnapshot (beginCycleSession world_abc history_bc) = [''A'', ''B'', ''C'']"
    by (simp add: begin_abc)
  have c: "mruDmChannelIds (pushChannelToFront ''Z'' (beginCycleSession world_abc history_bc))
       = [''Z'', ''B'', ''C'']"
    by (simp add: begin_abc push_mru) (simp add: history_bc_def initial_def MAX_HISTORY_def)
  from snapshot_frame [OF a, of "''Z''" "[]"] a b c show ?thesis by simp
qed

lemma js_rem_nonneg: "0 \<le> a \<Longrightarrow> 0 < b \<Longrightarrow> js_rem a b = a mod b"
  by (cases "a = 0") (simp_all add: js_rem_def)

lemma emit_simps:
  "mruDmChannelIds (emit e s) = mruDmChannelIds s"
  "isCyclingSessionActive (emit e s) = isCyclingSessionActive s"
  "suppressMruWhileCycling (emit e s) = suppressMruWhileCycling s"
  "cycleSnapshot (emit e s) = cycleSnapshot s"
  "cycleIndex (emit e s) = cycleIndex s"
  "activeToastId (emit e s) = activeToastId s"
  "overlayModalKey (emit e s) = overlayModalKey s"
  "effects (emit e s) = effects s @ [e]"
  by (simp_all add: emit_def)

lemma renderOverlay_frame:
  "mruDmChannelIds (renderOverlay w s) = mruDmChannelIds s"
  "isCyclingSessionActive (renderOverlay w s) = isCyclingSessionActive s"
  "suppressMruWhileCycling (renderOverlay w s) = suppressMruWhileCycling s"
  "cycleSnapshot (renderOverlay w s) = cycleSnapshot s"
  "cycleIndex (renderOverlay w s) = cycleIndex s"
  "promoteCalls (effects (renderOverlay w s)) = promoteCalls (effects s)"
  by (simp_all add: renderOverlay_def emit_simps promoteCalls_append)

lemma showCycleToast_frame:
  "mruDmChannelIds (showCycleToast w s) = mruDmChannelIds s"
  "isCyclingSessionActive (showCycleToast w s) = isCyclingSessionActive s"
  "suppressMruWhileCycling (showCycleToast w s) = suppressMruWhileCycling s"
  "cycleSnapshot (showCycleToast w s) = cycleSnapshot s"
  "cycleIndex (showCycleToast w s) = cycleIndex s"
  "promoteCalls (effects (showCycleToast w s)) = promoteCalls (effects s)"
  by (simp_all add: showCycleToast_def emit_simps promoteCalls_append split: option.splits)

lemma unmountOverlay_frame:
  "mruDmChannelIds (unmountOverlay s) = mruDmChannelIds s"
  "isCyclingSessionActive (unmountOverlay s) = isCyclingSessionActive s"
  "suppressMruWhileCycling (unmountOverlay s) = suppressMruWhileCycling s"
  "cycleSnapshot (unmountOverlay s) = cycleSnapshot s"
  "cycleIndex (unmountOverlay s) = cycleIndex s"
  "promoteCalls (effects (unmountOverlay s)) = promoteCalls (effects s)"
  by (simp_all add: unmountOverlay_def emit_simps promoteCalls_append)

lemmas indicator_frame = emit_simps renderOverlay_frame showCycleToast_frame unmountOverlay_frame

lemma stepCycle_frame:
  "mruDmChannelIds (stepCycle w d s) = mruDmChannelIds s"
  "isCyclingSessionActive (stepCycle w d s) = isCyclingSessionActive s"
  "suppressMruWhileCycling (stepCycle w d s) = suppressMruWhileCycling s"
  "cycleSnapshot (stepCycle w d s) = cycleSnapshot s"
  "promoteCalls (effects (stepCycle w d s)) = promoteCalls (effects s)"
  by (simp_all add: stepCycle_def Let_def indicator_frame promoteCalls_append
        split: option.splits visual_style.splits)

lemma stepCycle_short: "length (cycleSnapshot s) \<le> 1 \<Longrightarrow> stepCycle w d s = s"
  by (simp add: stepCycle_def Let_def)

lemma stepCycle_index:
  "isCyclingSessionActive s \<Longrightarrow> 2 \<le> length (cycleSnapshot s) \<Longrightarrow>
   cycleIndex (stepCycle w d s) =
     js_rem (cycleIndex s + delta d + int (length (cycleSnapshot s)))
       (int (length (cycleSnapshot s)))"
  by (auto simp add: stepCycle_def Let_def indicator_frame
        split: option.splits visual_style.splits)

lemma CHANNEL_SELECT_suppressed: "suppressMruWhileCycling s \<Longrightarrow> CHANNEL_SELECT w c s = s"
  by (simp add: CHANNEL_SELECT_def)

lemma begin_idle:
  "\<not> isCyclingSessionActive s \<Longrightarrow>
   beginCycleSession w s =
     s\<lparr> isCyclingSessionActive := True, suppressMruWhileCycling := True,
        cycleSnapshot := sanitizeHistory w
          ((case getChannelId w of None \<Rightarrow> []
            | Some c \<Rightarrow> if isDirectMessageChannel w (getChannelId w) then [c] else [])
           @ mruDmChannelIds s),
        cycleIndex := 0 \<rparr>"
  by (simp add: beginCycleSession_def Let_def)

lemma begin_sessionOpen:
  assumes "\<not> isCyclingSessionActive s"
  shows "sessionOpen (beginCycleSession w s)"
proof -
  have "[] \<notin> set (sanitizeHistory w ids)" for ids
    using sanitizeHistory_member [of "[]" w ids] by blast
  with assms show ?thesis
    by (simp add: begin_idle sessionOpen_def)
qed

lemma begin_frame:
  "mruDmChannelIds (beginCycleSession w s) = mruDmChannelIds s"
  "effects (beginCycleSession w s) = effects s"
  by (simp_all add: beginCycleSession_def Let_def)

lemma stepCycle_sessionOpen:
  assumes "sessionOpen s"
  shows "sessionOpen (stepCycle w d s)"
proof (cases "2 \<le> length (cycleSnapshot s)")
  case False
  then have "stepCycle w d s = s" by (simp add: stepCycle_short)
  with assms show ?thesis by simp
next
  case True
  let ?n = "int (length (cycleSnapshot s))"
  from True have ne: "cycleSnapshot s \<noteq> []"
    by (cases "cycleSnapshot s") simp_all
  with assms have r: "0 \<le> cycleIndex s" "cycleIndex s < ?n"
    by (simp_all add: sessionOpen_def)
  have d: "- 1 \<le> delta d" by (cases d) simp_all
  from r d True have nn: "0 \<le> cycleIndex s + delta d + ?n" by linarith
  from ne have pos: "0 < ?n" by simp
  from assms True have "cycleIndex (stepCycle w d s) = (cycleIndex s + delta d + ?n) mod ?n"
    by (simp add: stepCycle_index sessionOpen_def js_rem_nonneg [OF nn pos])
  moreover from pos have "0 \<le> (cycleIndex s + delta d + ?n) mod ?n"
    and "(cycleIndex s + delta d + ?n) mod ?n < ?n"
    by simp_all
  ultimately show ?thesis using assms
    by (auto simp add: sessionOpen_def stepCycle_frame)
qed

lemma deliver_inSession:
  assumes "sessionOpen s" and "inSession sg"
  shows "sessionOpen (deliver w sg s)"
    and "cycleSnapshot (deliver w sg s) = cycleSnapshot s"
    and "mruDmChannelIds (deliver w sg s) = mruDmChannelIds s"
    and "promoteCalls (effects (deliver w sg s)) = promoteCalls (effects s)"
  using assms
  by (cases sg; simp add: stepCycle_sessionOpen stepCycle_frame CHANNEL_SELECT_suppressed
        sessionOpen_def [of s])+

lemma run_append: "run (xs @ ys) s = run ys (run xs s)"
  by (induction xs arbitrary: s) auto

lemma run_inSession:
  assumes "sessionOpen s" and "\<forall>p \<in> set mid. inSession (snd p)"
  shows "sessionOpen (run mid s)
    \<and> cycleSnapshot (run mid s) = cycleSnapshot s
    \<and> mruDmChannelIds (run mid s) = mruDmChannelIds s
    \<and> promoteCalls (effects (run mid s)) = promoteCalls (effects s)"
  using assms
proof (induction mid arbitrary: s)
  case Nil
  then show ?case by simp
next
  case (Cons p mid)
  obtain w sg where p: "p = (w, sg)" by (cases p)
  with Cons.prems have i: "inSession sg" by simp
  note d = deliver_inSession [OF Cons.prems(1) i, of w]
  from Cons.prems(2) have "\<forall>p \<in> set mid. inSession (snd p)" by simp
  from Cons.IH [OF d(1) this] d(2,3,4) p show ?case by simp
qed

lemma end_frame:
  "\<not> isCyclingSessionActive (endCycleSession w s)"
  "isCyclingSessionActive s \<Longrightarrow> \<not> suppressMruWhileCycling (endCycleSession w s)"
  "isCyclingSessionActive s \<Longrightarrow> cycleSnapshot (endCycleSession w s) = []"
  "isCyclingSessionActive s \<Longrightarrow> cycleIndex (endCycleSession w s) = - 1"
  by (simp_all add: endCycleSession_def Let_def indicator_frame push_frame
        split: option.splits)

lemma end_commit:
  assumes "isCyclingSessionActive s"
    and "0 \<le> cycleIndex s" and "cycleIndex s < int (length (cycleSnapshot s))"
    and "cycleSnapshot s ! nat (cycleIndex s) \<noteq> []"
  shows "promoteCalls (effects (endCycleSession w s)) =
           promoteCalls (effects s) @ [cycleSnapshot s ! nat (cycleIndex s)]"
    and "mruDmChannelIds (endCycleSession w s) =
           take MAX_HISTORY (cycleSnapshot s ! nat (cycleIndex s) #
             filter (\<lambda>c. c \<noteq> cycleSnapshot s ! nat (cycleIndex s)) (mruDmChannelIds s))"
  using assms
  by (simp_all add: endCycleSession_def Let_def indicator_frame push_frame push_mru
        push_promoteCalls js_index_def promoteCalls_append)

lemma end_no_commit:
  assumes "cycleIndex s < 0 \<or> int (length (cycleSnapshot s)) \<le> cycleIndex s"
  shows "promoteCalls (effects (endCycleSession w s)) = promoteCalls (effects s)"
    and "mruDmChannelIds (endCycleSession w s) = mruDmChannelIds s"
  using assms
  by (auto simp add: endCycleSession_def Let_def indicator_frame)



lemma run_begin_mid:
  assumes "\<not> isCyclingSessionActive s" and "\<forall>p \<in> set mid. inSession (snd p)"
  shows "sessionOpen (run ((wb, Begin) # mid) s)"
    and "cycleSnapshot (run ((wb, Begin) # mid) s) = cycleSnapshot (beginCycleSession wb s)"
    and "mruDmChannelIds (run ((wb, Begin) # mid) s) = mruDmChannelIds s"
    and "promoteCalls (effects (run ((wb, Begin) # mid) s)) = promoteCalls (effects s)"
  using run_inSession [OF begin_sessionOpen [OF assms(1), of wb] assms(2)]
  by (simp_all add: begin_frame)

text \<open>
  C1, as the code has it. Take a gesture that starts Idle: \<^verbatim>\<open>beginCycleSession\<close>, then any
  number of steps with \<^verbatim>\<open>CHANNEL_SELECT\<close> signals arriving in between (each in the world
  of its moment, whatever \<^verbatim>\<open>instantSwitch\<close> is), then \<^verbatim>\<open>endCycleSession\<close>. Until the end
  \<^verbatim>\<open>pushChannelToFront\<close> is not invoked, the history is untouched and the snapshot is the
  one taken at the beginning. At the end it is invoked exactly once, with the identifier
  at the final cursor position, when the snapshot is not empty; when the snapshot is
  empty it is not invoked at all.
\<close>

theorem single_commit_point:
  assumes "\<not> isCyclingSessionActive s" and "\<forall>p \<in> set mid. inSession (snd p)"
  shows "promoteCalls (effects (run ((wb, Begin) # mid) s)) = promoteCalls (effects s)
    \<and> mruDmChannelIds (run ((wb, Begin) # mid) s) = mruDmChannelIds s
    \<and> cycleSnapshot (run ((wb, Begin) # mid) s) = cycleSnapshot (beginCycleSession wb s)
    \<and> (cycleSnapshot (beginCycleSession wb s) \<noteq> [] \<longrightarrow>
         promoteCalls (effects (run ((wb, Begin) # mid @ [(we, End)]) s)) =
           promoteCalls (effects s) @
             [cycleSnapshot (run ((wb, Begin) # mid) s)
                ! nat (cycleIndex (run ((wb, Begin) # mid) s))])
    \<and> (cycleSnapshot (beginCycleSession wb s) = [] \<longrightarrow>
         promoteCalls (effects (run ((wb, Begin) # mid @ [(we, End)]) s)) =
           promoteCalls (effects s))"
proof -
  let ?t = "run ((wb, Begin) # mid) s"
  note m = run_begin_mid [OF assms, of wb]
  have fin: "run ((wb, Begin) # mid @ [(we, End)]) s = endCycleSession we ?t"
    using run_append [of "(wb, Begin) # mid" "[(we, End)]" s] by simp
  have full: "promoteCalls (effects (endCycleSession we ?t)) =
      promoteCalls (effects s) @ [cycleSnapshot ?t ! nat (cycleIndex ?t)]"
    if ne: "cycleSnapshot (beginCycleSession wb s) \<noteq> []"
  proof -
    from m(1) ne m(2) have a: "isCyclingSessionActive ?t" and b: "0 \<le> cycleIndex ?t"
      and c: "cycleIndex ?t < int (length (cycleSnapshot ?t))"
      and d: "[] \<notin> set (cycleSnapshot ?t)"
      by (simp_all add: sessionOpen_def)
    from b c have "cycleSnapshot ?t ! nat (cycleIndex ?t) \<in> set (cycleSnapshot ?t)"
      by simp
    with d have e: "cycleSnapshot ?t ! nat (cycleIndex ?t) \<noteq> []" by metis
    from end_commit(1) [OF a b c e, of we] m(4) show ?thesis by simp
  qed
  have none: "promoteCalls (effects (endCycleSession we ?t)) = promoteCalls (effects s)"
    if "cycleSnapshot (beginCycleSession wb s) = []"
  proof -
    from that m(2) have "int (length (cycleSnapshot ?t)) \<le> cycleIndex ?t \<or> cycleIndex ?t < 0"
      using m(1) by (simp add: sessionOpen_def)
    then have "cycleIndex ?t < 0 \<or> int (length (cycleSnapshot ?t)) \<le> cycleIndex ?t" by blast
    from end_no_commit(1) [OF this, of we] m(4) show ?thesis by simp
  qed
  from m(2,3,4) full none show ?thesis unfolding fin by blast
qed

lemma step_abc:
  "cycleIndex s = i \<Longrightarrow> isCyclingSessionActive s \<Longrightarrow> cycleSnapshot s = [a, b, c] \<Longrightarrow>
   cycleIndex (stepCycle w d s) = js_rem (i + delta d + 3) 3"
  by (simp add: stepCycle_index)

theorem single_commit_point_witness:
  "\<not> isCyclingSessionActive history_bc
   \<and> promoteCalls (effects (run [(world_abc, Begin), (world_abc, Step Forward),
        (world_abc, ChannelSelect (Some ''C'')), (world_abc, Step Forward)] history_bc)) = []
   \<and> promoteCalls (effects (run [(world_abc, Begin), (world_abc, Step Forward),
        (world_abc, ChannelSelect (Some ''C'')), (world_abc, Step Forward),
        (world_abc, End)] history_bc)) = [''C'']"
proof -
  let ?mid = "[(world_abc, Step Forward), (world_abc, ChannelSelect (Some ''C'')),
               (world_abc, Step Forward)]"
  have idle: "\<not> isCyclingSessionActive history_bc"
    by (simp add: history_bc_def initial_def)
  have mid: "\<forall>p \<in> set ?mid. inSession (snd p)" by simp
  have eff: "promoteCalls (effects history_bc) = []"
    by (simp add: history_bc_def initial_def)
  have snap: "cycleSnapshot (beginCycleSession world_abc history_bc) = [''A'', ''B'', ''C'']"
    by (simp add: begin_abc)
  have cur: "cycleIndex (run ((world_abc, Begin) # ?mid) history_bc) = 2"
    by (simp add: CHANNEL_SELECT_suppressed stepCycle_frame begin_abc step_abc js_rem_def)
  from single_commit_point [OF idle mid, of world_abc world_abc] eff snap cur
  show ?thesis using idle by simp
qed

text \<open>
  C1 as stated fails where the snapshot is empty: with an empty history and no
  conversation selected, \<^verbatim>\<open>begin(); step(); step(); end()\<close> never invokes
  \<^verbatim>\<open>pushChannelToFront\<close>, the guard of \<^verbatim>\<open>endCycleSession\<close> on the cursor being false.
\<close>

theorem single_commit_point_counterexample:
  "promoteCalls (effects (run [(world_empty, Begin), (world_empty, Step Forward),
      (world_empty, Step Forward), (world_empty, End)] initial)) = []
   \<and> length (promoteCalls (effects (run [(world_empty, Begin), (world_empty, Step Forward),
      (world_empty, Step Forward), (world_empty, End)] initial))) \<noteq> 1"
proof -
  have b: "beginCycleSession world_empty initial =
      initial\<lparr> isCyclingSessionActive := True, suppressMruWhileCycling := True,
        cycleSnapshot := [], cycleIndex := 0 \<rparr>"
    by (simp add: beginCycleSession_def sanitizeHistory_def initial_def world_empty_def)
  have "promoteCalls (effects (run [(world_empty, Begin), (world_empty, Step Forward),
      (world_empty, Step Forward), (world_empty, End)] initial)) = []"
    by (simp add: b stepCycle_short end_no_commit) (simp add: initial_def)
  then show ?thesis by simp
qed



lemma clearMru_simps:
  "mruDmChannelIds (clearMru s) = []"
  "cycleSnapshot (clearMru s) = []"
  "cycleIndex (clearMru s) = - 1"
  "isCyclingSessionActive (clearMru s) = isCyclingSessionActive s"
  "suppressMruWhileCycling (clearMru s) = suppressMruWhileCycling s"
  "promoteCalls (effects (clearMru s)) = promoteCalls (effects s)"
  by (simp_all add: clearMru_def emit_simps promoteCalls_append)

text \<open>
  C2, as the code has it. When the clear action runs while a session is Active, it
  empties the history and the snapshot and sets the cursor to \<open>-1\<close>, and it leaves both
  flags as they are: the session stays Active. From there every step is a no-op, and
  \<^verbatim>\<open>endCycleSession\<close> commits nothing (the history stays empty and \<^verbatim>\<open>pushChannelToFront\<close> is
  not invoked) and brings the session to Idle.
\<close>

theorem clear_during_session:
  assumes "isCyclingSessionActive s"
  shows "isCyclingSessionActive (clearMru s)
    \<and> suppressMruWhileCycling (clearMru s) = suppressMruWhileCycling s
    \<and> mruDmChannelIds (clearMru s) = []
    \<and> cycleSnapshot (clearMru s) = []
    \<and> cycleIndex (clearMru s) = - 1
    \<and> stepCycle w d (clearMru s) = clearMru s
    \<and> \<not> isCyclingSessionActive (endCycleSession w (clearMru s))
    \<and> mruDmChannelIds (endCycleSession w (clearMru s)) = []
    \<and> promoteCalls (effects (endCycleSession w (clearMru s))) = promoteCalls (effects s)"
proof -
  have "cycleIndex (clearMru s) < 0 \<or>
        int (length (cycleSnapshot (clearMru s))) \<le> cycleIndex (clearMru s)"
    by (simp add: clearMru_simps)
  from end_no_commit [OF this, of w] assms show ?thesis
    by (simp add: clearMru_simps stepCycle_short end_frame)
qed

theorem clear_during_session_witness:
  "isCyclingSessionActive (beginCycleSession world_abc history_bc)
   \<and> isCyclingSessionActive (clearMru (beginCycleSession world_abc history_bc))
   \<and> cycleSnapshot (clearMru (beginCycleSession world_abc history_bc)) = []
   \<and> \<not> isCyclingSessionActive
         (endCycleSession world_abc (clearMru (beginCycleSession world_abc history_bc)))
   \<and> mruDmChannelIds
         (endCycleSession world_abc (clearMru (beginCycleSession world_abc history_bc))) = []
   \<and> promoteCalls (effects
         (endCycleSession world_abc (clearMru (beginCycleSession world_abc history_bc)))) = []"
proof -
  have a: "isCyclingSessionActive (beginCycleSession world_abc history_bc)"
    by (simp add: begin_abc)
  have e: "promoteCalls (effects (beginCycleSession world_abc history_bc)) = []"
    by (simp add: begin_frame) (simp add: history_bc_def initial_def)
  from clear_during_session [OF a, of world_abc Forward] a e show ?thesis by simp
qed

text \<open>
  C2 as stated fails: after the clear action on an Active session, the session is still
  Active.
\<close>

theorem clear_during_session_counterexample:
  "isCyclingSessionActive (beginCycleSession world_abc history_bc)
   \<and> isCyclingSessionActive (clearMru (beginCycleSession world_abc history_bc))"
  by (simp add: clearMru_simps begin_abc)

lemma sanitize_three:
  assumes "\<forall>c \<in> set [a, b, c]. c \<noteq> [] \<and> hasChannel w c \<and> isDirectMessageChannel w (Some c)"
    and "distinct [a, b, c]"
  shows "sanitizeHistory w [a, b, c] = [a, b, c]"
  using assms by (auto simp add: sanitizeHistory_def MAX_HISTORY_def)

text \<open>
  C4, as the code has it. With the history \<open>[B, C]\<close>, the selected conversation \<open>A\<close>, the
  three of them known to the directory and eligible, and the session Idle:
  \<^verbatim>\<open>beginCycleSession\<close> takes the snapshot \<open>[A, B, C]\<close> with cursor 0; a step forward sets the
  cursor to 1, a second one to 2, a step backward to 1; and \<^verbatim>\<open>endCycleSession\<close> leaves the
  history equal to \<open>[B, C]\<close>: it promotes \<open>B\<close>, and \<open>A\<close>, which was in the snapshot only, is
  not put into the history.
\<close>

theorem scenario_bc_a:
  assumes cur: "getChannelId w = Some ''A''"
    and dir: "\<forall>c \<in> set [''A'', ''B'', ''C'']. hasChannel w c \<and> isDirectMessageChannel w (Some c)"
    and hist: "mruDmChannelIds s = [''B'', ''C'']"
    and idle: "\<not> isCyclingSessionActive s"
  shows "cycleSnapshot (run [(w, Begin)] s) = [''A'', ''B'', ''C'']
    \<and> cycleIndex (run [(w, Begin)] s) = 0
    \<and> cycleIndex (run [(w, Begin), (w, Step Forward)] s) = 1
    \<and> cycleIndex (run [(w, Begin), (w, Step Forward), (w, Step Forward)] s) = 2
    \<and> cycleIndex (run [(w, Begin), (w, Step Forward), (w, Step Forward),
          (w, Step Backward)] s) = 1
    \<and> mruDmChannelIds (run [(w, Begin), (w, Step Forward), (w, Step Forward),
          (w, Step Backward), (w, End)] s) = [''B'', ''C'']"
proof -
  from dir have el: "\<forall>c \<in> set [''A'', ''B'', ''C''].
      c \<noteq> [] \<and> hasChannel w c \<and> isDirectMessageChannel w (Some c)"
    by simp
  have san: "sanitizeHistory w [''A'', ''B'', ''C''] = [''A'', ''B'', ''C'']"
    by (rule sanitize_three [OF el]) simp
  from dir have "isDirectMessageChannel w (Some ''A'')" by simp
  with cur hist idle san
  have b: "beginCycleSession w s =
      s\<lparr> isCyclingSessionActive := True, suppressMruWhileCycling := True,
         cycleSnapshot := [''A'', ''B'', ''C''], cycleIndex := 0 \<rparr>"
    by (simp add: begin_idle)
  let ?s1 = "stepCycle w Forward (beginCycleSession w s)"
  let ?s2 = "stepCycle w Forward ?s1"
  let ?s3 = "stepCycle w Backward ?s2"
  have i1: "cycleIndex ?s1 = 1"
    by (simp add: step_abc [where i = 0] b js_rem_def)
  have a1: "isCyclingSessionActive ?s1" and n1: "cycleSnapshot ?s1 = [''A'', ''B'', ''C'']"
    by (simp_all add: stepCycle_frame b)
  have i2: "cycleIndex ?s2 = 2"
    using step_abc [OF i1 a1 n1, of w Forward] by (simp add: js_rem_def)
  have a2: "isCyclingSessionActive ?s2" and n2: "cycleSnapshot ?s2 = [''A'', ''B'', ''C'']"
    by (simp_all add: stepCycle_frame b)
  have i3: "cycleIndex ?s3 = 1"
    using step_abc [OF i2 a2 n2, of w Backward] by (simp add: js_rem_def)
  have act: "isCyclingSessionActive ?s3" and snap: "cycleSnapshot ?s3 = [''A'', ''B'', ''C'']"
    and mru: "mruDmChannelIds ?s3 = [''B'', ''C'']"
    using hist by (simp_all add: stepCycle_frame b)
  have "mruDmChannelIds (endCycleSession w ?s3) = [''B'', ''C'']"
    using end_commit(2) [OF act, of w] i3 snap mru
    by (simp add: MAX_HISTORY_def)
  with i1 i2 i3 b show ?thesis by simp
qed

theorem scenario_bc_a_witness:
  "getChannelId world_abc = Some ''A''
   \<and> mruDmChannelIds history_bc = [''B'', ''C'']
   \<and> \<not> isCyclingSessionActive history_bc
   \<and> cycleSnapshot (run [(world_abc, Begin)] history_bc) = [''A'', ''B'', ''C'']
   \<and> cycleIndex (run [(world_abc, Begin), (world_abc, Step Forward),
        (world_abc, Step Forward), (world_abc, Step Backward)] history_bc) = 1
   \<and> mruDmChannelIds (run [(world_abc, Begin), (world_abc, Step Forward),
        (world_abc, Step Forward), (world_abc, Step Backward), (world_abc, End)] history_bc)
       = [''B'', ''C'']"
proof -
  have cur: "getChannelId world_abc = Some ''A''" by (simp add: world_abc_def)
  have dir: "\<forall>c \<in> set [''A'', ''B'', ''C''].
      hasChannel world_abc c \<and> isDirectMessageChannel world_abc (Some c)"
    by (simp add: isDirectMessageChannel_abc) (simp add: world_abc_def)
  have hist: "mruDmChannelIds history_bc = [''B'', ''C'']"
    by (simp add: history_bc_def)
  have idle: "\<not> isCyclingSessionActive history_bc"
    by (simp add: history_bc_def initial_def)
  from scenario_bc_a [OF cur dir hist idle] cur hist idle show ?thesis by blast
qed

text \<open>
  C4 as stated fails at its last step: the history after the gesture is not
  \<open>[B, A, C]\<close>.
\<close>

theorem scenario_bc_a_counterexample:
  "mruDmChannelIds (run [(world_abc, Begin), (world_abc, Step Forward),
      (world_abc, Step Forward), (world_abc, Step Backward), (world_abc, End)] history_bc)
     \<noteq> [''B'', ''A'', ''C'']"
proof -
  let ?s1 = "stepCycle world_abc Forward (beginCycleSession world_abc history_bc)"
  let ?s2 = "stepCycle world_abc Forward ?s1"
  let ?s3 = "stepCycle world_abc Backward ?s2"
  have i1: "cycleIndex ?s1 = 1"
    by (simp add: step_abc [where i = 0] begin_abc js_rem_def)
  have a1: "isCyclingSessionActive ?s1" and n1: "cycleSnapshot ?s1 = [''A'', ''B'', ''C'']"
    by (simp_all add: stepCycle_frame begin_abc)
  have i2: "cycleIndex ?s2 = 2"
    using step_abc [OF i1 a1 n1, of world_abc Forward] by (simp add: js_rem_def)
  have a2: "isCyclingSessionActive ?s2" and n2: "cycleSnapshot ?s2 = [''A'', ''B'', ''C'']"
    by (simp_all add: stepCycle_frame begin_abc)
  have i3: "cycleIndex ?s3 = 1"
    using step_abc [OF i2 a2 n2, of world_abc Backward] by (simp add: js_rem_def)
  have act: "isCyclingSessionActive ?s3" and snap: "cycleSnapshot ?s3 = [''A'', ''B'', ''C'']"
    and mru: "mruDmChannelIds ?s3 = [''B'', ''C'']"
    by (simp_all add: stepCycle_frame begin_abc) (simp add: history_bc_def)
  have "mruDmChannelIds (endCycleSession world_abc ?s3) = [''B'', ''C'']"
    using end_commit(2) [OF act, of world_abc] i3 snap mru
    by (simp add: MAX_HISTORY_def)
  then show ?thesis by simp
qed



lemma forward_steps_index:
  assumes "isCyclingSessionActive s" and "2 \<le> length (cycleSnapshot s)"
    and "0 \<le> cycleIndex s" and "cycleIndex s < int (length (cycleSnapshot s))"
  shows "cycleIndex (run (map (\<lambda>w. (w, Step Forward)) ws) s) =
           (cycleIndex s + int (length ws)) mod int (length (cycleSnapshot s))"
  using assms
proof (induction ws arbitrary: s)
  case Nil
  then show ?case by simp
next
  case (Cons w ws)
  let ?n = "int (length (cycleSnapshot s))"
  let ?t = "stepCycle w Forward s"
  from Cons.prems(2) have "cycleSnapshot s \<noteq> []" by (cases "cycleSnapshot s") simp_all
  with Cons.prems have nn: "0 \<le> cycleIndex s + 1 + ?n" and pos: "0 < ?n" by simp_all
  from Cons.prems have idx: "cycleIndex ?t = (cycleIndex s + 1 + ?n) mod ?n"
    by (simp add: stepCycle_index js_rem_nonneg [OF nn pos])
  with pos have r: "0 \<le> cycleIndex ?t" "cycleIndex ?t < int (length (cycleSnapshot ?t))"
    by (simp_all add: stepCycle_frame)
  from Cons.prems have a: "isCyclingSessionActive ?t" "2 \<le> length (cycleSnapshot ?t)"
    by (simp_all add: stepCycle_frame)
  have "cycleIndex (run (map (\<lambda>w. (w, Step Forward)) ws) ?t) =
          (cycleIndex ?t + int (length ws)) mod ?n"
    using Cons.IH [OF a r] by (simp add: stepCycle_frame)
  also have "\<dots> = (cycleIndex s + 1 + int (length ws)) mod ?n"
    unfolding idx by (simp add: mod_add_left_eq)
  finally show ?case by (simp add: ac_simps)
qed

text \<open>
  C5. In an Active session whose snapshot has \<open>n \<ge> 2\<close> entries and whose cursor is 0:
  \<open>n\<close> consecutive steps forward (in any worlds) bring the cursor back to 0, one step
  backward sets it to \<open>n - 1\<close>, and a step in direction \<open>d\<close> sets it to
  \<open>(cursor + delta d + n) mod n\<close>.
\<close>

theorem wraparound:
  assumes "isCyclingSessionActive s" and "length (cycleSnapshot s) = n" and "2 \<le> n"
    and "cycleIndex s = 0"
  shows "(length ws = n \<longrightarrow> cycleIndex (run (map (\<lambda>w. (w, Step Forward)) ws) s) = 0)
    \<and> cycleIndex (stepCycle w Backward s) = int n - 1
    \<and> cycleIndex (stepCycle w d s) = (cycleIndex s + delta d + int n) mod int n"
proof -
  have d: "- 1 \<le> delta d" by (cases d) simp_all
  with assms have nn: "0 \<le> cycleIndex s + delta d + int n" and pos: "0 < int n" by simp_all
  from assms have upd: "cycleIndex (stepCycle w d s) = (cycleIndex s + delta d + int n) mod int n"
    for d
  proof -
    have "- 1 \<le> delta d" by (cases d) simp_all
    with assms have "0 \<le> cycleIndex s + delta d + int n" by simp
    from js_rem_nonneg [OF this pos] assms show ?thesis by (simp add: stepCycle_index)
  qed
  from assms have fw: "cycleIndex (run (map (\<lambda>w. (w, Step Forward)) ws) s) = 0"
    if "length ws = n"
    using forward_steps_index [of s ws] that by simp
  have e: "cycleIndex s + delta Backward + int n = int n - 1" using assms by simp
  have "(int n - 1) mod int n = int n - 1"
    using assms by (intro mod_pos_pos_trivial) simp_all
  with upd [of Backward] have "cycleIndex (stepCycle w Backward s) = int n - 1"
    unfolding e by (simp only:)
  with fw upd [of d] show ?thesis by blast
qed

theorem wraparound_witness:
  "isCyclingSessionActive (beginCycleSession world_abc history_bc)
   \<and> length (cycleSnapshot (beginCycleSession world_abc history_bc)) = 3
   \<and> cycleIndex (beginCycleSession world_abc history_bc) = 0
   \<and> cycleIndex (run [(world_abc, Step Forward), (world_empty, Step Forward),
        (world_abc, Step Forward)] (beginCycleSession world_abc history_bc)) = 0
   \<and> cycleIndex (stepCycle world_abc Backward (beginCycleSession world_abc history_bc)) = 2"
proof -
  have a: "isCyclingSessionActive (beginCycleSession world_abc history_bc)"
    and n: "length (cycleSnapshot (beginCycleSession world_abc history_bc)) = 3"
    and c: "cycleIndex (beginCycleSession world_abc history_bc) = 0"
    by (simp_all add: begin_abc)
  have three: "2 \<le> (3::nat)" by simp
  from wraparound [OF a n three c, of "[world_abc, world_empty, world_abc]" world_abc Backward]
    a n c
  show ?thesis by simp
qed

lemma flags_begin:
  "suppressMruWhileCycling s = isCyclingSessionActive s \<Longrightarrow>
   suppressMruWhileCycling (beginCycleSession w s) \<and> isCyclingSessionActive (beginCycleSession w s)"
  by (simp add: beginCycleSession_def Let_def)

lemma flags_end:
  "suppressMruWhileCycling s = isCyclingSessionActive s \<Longrightarrow>
   \<not> suppressMruWhileCycling (endCycleSession w s) \<and> \<not> isCyclingSessionActive (endCycleSession w s)"
  by (cases "isCyclingSessionActive s") (simp_all add: end_frame, simp add: endCycleSession_def)

lemma flags_stop:
  "\<not> suppressMruWhileCycling (stop w s) \<and> \<not> isCyclingSessionActive (stop w s)"
  by (simp add: stop_def Let_def indicator_frame)

lemma flags_CHANNEL_SELECT:
  "suppressMruWhileCycling (CHANNEL_SELECT w c s) = suppressMruWhileCycling s"
  "isCyclingSessionActive (CHANNEL_SELECT w c s) = isCyclingSessionActive s"
  by (simp_all add: CHANNEL_SELECT_def push_frame split: option.splits)

lemma flags_GUILD_SELECT:
  "suppressMruWhileCycling (GUILD_SELECT g s) = suppressMruWhileCycling s"
  "isCyclingSessionActive (GUILD_SELECT g s) = isCyclingSessionActive s"
  by (simp_all add: GUILD_SELECT_def emit_simps split: option.splits)

lemma flags_start:
  "suppressMruWhileCycling (start w saved s) = suppressMruWhileCycling s"
  "isCyclingSessionActive (start w saved s) = isCyclingSessionActive s"
  by (simp_all add: start_def Let_def push_frame split: option.splits)

lemma flags_deliver:
  assumes "suppressMruWhileCycling s = isCyclingSessionActive s"
  shows "suppressMruWhileCycling (deliver w sg s) = isCyclingSessionActive (deliver w sg s)"
proof (cases sg)
  case Begin
  with flags_begin [OF assms, of w] show ?thesis by simp
next
  case (Step d)
  with assms show ?thesis by (simp add: stepCycle_frame)
next
  case End
  with flags_end [OF assms, of w] show ?thesis by simp
next
  case (ChannelSelect c)
  with assms show ?thesis by (simp add: flags_CHANNEL_SELECT)
next
  case (GuildSelect g)
  with assms show ?thesis by (simp add: flags_GUILD_SELECT)
next
  case Clear
  with assms show ?thesis by (simp add: clearMru_simps)
next
  case (Start saved)
  with assms show ?thesis by (simp add: flags_start)
next
  case Stop
  with flags_stop [of w s] show ?thesis by simp
next
  case (KeyDown e)
  from flags_begin [OF assms, of w] assms KeyDown show ?thesis
    by (simp add: onKeyDown_def stepCycle_frame)
next
  case (KeyUp e)
  from flags_end [OF assms, of w] assms KeyUp show ?thesis
    by (simp add: onKeyUp_def)
qed

lemma flags_run:
  "suppressMruWhileCycling s = isCyclingSessionActive s \<Longrightarrow>
   suppressMruWhileCycling (run sigs s) = isCyclingSessionActive (run sigs s)"
proof (induction sigs arbitrary: s)
  case Nil
  then show ?case by simp
next
  case (Cons p sigs)
  obtain w sg where "p = (w, sg)" by (cases p)
  with Cons.IH [OF flags_deliver [OF Cons.prems, of w sg]] show ?case by simp
qed

text \<open>
  C9. \<^verbatim>\<open>suppressMruWhileCycling = isCyclingSessionActive\<close> holds initially and in every
  state reached from the initial one by any signals; it is preserved by every handler;
  where it holds, \<^verbatim>\<open>beginCycleSession\<close> leaves both flags true and \<^verbatim>\<open>endCycleSession\<close> both
  false; \<^verbatim>\<open>stop\<close> sets both to false; the clear action and \<^verbatim>\<open>stepCycle\<close> change neither.
\<close>

theorem flags_agree:
  "suppressMruWhileCycling initial = isCyclingSessionActive initial
   \<and> suppressMruWhileCycling (run sigs initial) = isCyclingSessionActive (run sigs initial)
   \<and> (suppressMruWhileCycling s = isCyclingSessionActive s \<longrightarrow>
        suppressMruWhileCycling (deliver w sg s) = isCyclingSessionActive (deliver w sg s)
      \<and> suppressMruWhileCycling (beginCycleSession w s) \<and> isCyclingSessionActive (beginCycleSession w s)
      \<and> \<not> suppressMruWhileCycling (endCycleSession w s) \<and> \<not> isCyclingSessionActive (endCycleSession w s))
   \<and> \<not> suppressMruWhileCycling (stop w s) \<and> \<not> isCyclingSessionActive (stop w s)
   \<and> suppressMruWhileCycling (clearMru s) = suppressMruWhileCycling s
   \<and> isCyclingSessionActive (clearMru s) = isCyclingSessionActive s
   \<and> suppressMruWhileCycling (stepCycle w d s) = suppressMruWhileCycling s
   \<and> isCyclingSessionActive (stepCycle w d s) = isCyclingSessionActive s"
proof -
  have i: "suppressMruWhileCycling initial = isCyclingSessionActive initial"
    by (simp add: initial_def)
  from flags_run [OF i, of sigs] i flags_deliver [of s w sg] flags_begin [of s w]
    flags_end [of s w] flags_stop [of w s]
  show ?thesis by (simp add: clearMru_simps stepCycle_frame)
qed

theorem flags_agree_witness:
  "suppressMruWhileCycling history_bc = isCyclingSessionActive history_bc
   \<and> suppressMruWhileCycling (beginCycleSession world_abc history_bc)
   \<and> isCyclingSessionActive (beginCycleSession world_abc history_bc)
   \<and> \<not> suppressMruWhileCycling (endCycleSession world_abc history_bc)
   \<and> suppressMruWhileCycling (run [(world_abc, KeyDown \<lparr> key = ''Tab'', ctrlKey = True,
         metaKey = False, shiftKey = False \<rparr>), (world_abc, Clear)] initial)
       = isCyclingSessionActive (run [(world_abc, KeyDown \<lparr> key = ''Tab'', ctrlKey = True,
         metaKey = False, shiftKey = False \<rparr>), (world_abc, Clear)] initial)"
proof -
  have h: "suppressMruWhileCycling history_bc = isCyclingSessionActive history_bc"
    by (simp add: history_bc_def initial_def)
  from flags_agree [of "[(world_abc, KeyDown \<lparr> key = ''Tab'', ctrlKey = True,
         metaKey = False, shiftKey = False \<rparr>), (world_abc, Clear)]" history_bc world_abc Begin Forward] h
  show ?thesis by blast
qed

lemma steps_short:
  "length (cycleSnapshot s) \<le> 1 \<Longrightarrow>
   run (map (\<lambda>p. (fst p, Step (snd p))) steps) s = s"
  by (induction steps) (simp_all add: stepCycle_short)

text \<open>
  C10. If \<^verbatim>\<open>beginCycleSession\<close>, from Idle, produces an empty snapshot, then the cursor is 0,
  every step after it leaves the state as it is, and over the whole gesture begin, steps,
  end \<^verbatim>\<open>pushChannelToFront\<close> is not invoked and the history is unchanged.
\<close>

theorem empty_snapshot_gesture:
  assumes "\<not> isCyclingSessionActive s" and "cycleSnapshot (beginCycleSession wb s) = []"
  shows "cycleIndex (beginCycleSession wb s) = 0
    \<and> stepCycle w d (beginCycleSession wb s) = beginCycleSession wb s
    \<and> run (map (\<lambda>p. (fst p, Step (snd p))) steps) (beginCycleSession wb s)
        = beginCycleSession wb s
    \<and> promoteCalls (effects (run ((wb, Begin) # map (\<lambda>p. (fst p, Step (snd p))) steps
          @ [(we, End)]) s)) = promoteCalls (effects s)
    \<and> mruDmChannelIds (run ((wb, Begin) # map (\<lambda>p. (fst p, Step (snd p))) steps
          @ [(we, End)]) s) = mruDmChannelIds s"
proof -
  let ?b = "beginCycleSession wb s"
  from assms(2) have short: "length (cycleSnapshot ?b) \<le> 1" by simp
  from assms(1) have c: "cycleIndex ?b = 0" by (simp add: begin_idle)
  have fin: "run ((wb, Begin) # map (\<lambda>p. (fst p, Step (snd p))) steps @ [(we, End)]) s
      = endCycleSession we ?b"
    using run_append [of "map (\<lambda>p. (fst p, Step (snd p))) steps" "[(we, End)]" ?b]
    by (simp add: steps_short [OF short])
  from assms(2) c have "cycleIndex ?b < 0 \<or> int (length (cycleSnapshot ?b)) \<le> cycleIndex ?b"
    by simp
  from end_no_commit [OF this, of we] c stepCycle_short [OF short] steps_short [OF short]
  show ?thesis unfolding fin by (simp add: begin_frame)
qed

theorem empty_snapshot_gesture_witness:
  "\<not> isCyclingSessionActive initial
   \<and> cycleSnapshot (beginCycleSession world_empty initial) = []
   \<and> cycleIndex (beginCycleSession world_empty initial) = 0
   \<and> stepCycle world_abc Forward (beginCycleSession world_empty initial)
       = beginCycleSession world_empty initial
   \<and> mruDmChannelIds (run [(world_empty, Begin), (world_empty, Step Forward),
        (world_abc, Step Backward), (world_abc, End)] initial) = mruDmChannelIds initial
   \<and> promoteCalls (effects (run [(world_empty, Begin), (world_empty, Step Forward),
        (world_abc, Step Backward), (world_abc, End)] initial)) = promoteCalls (effects initial)"
proof -
  have i: "\<not> isCyclingSessionActive initial" by (simp add: initial_def)
  have e: "cycleSnapshot (beginCycleSession world_empty initial) = []"
    by (simp add: beginCycleSession_def sanitizeHistory_def initial_def world_empty_def)
  have r: "run [(world_empty, Begin), (world_empty, Step Forward),
        (world_abc, Step Backward), (world_abc, End)] initial =
      run ((world_empty, Begin) # map (\<lambda>p. (fst p, Step (snd p)))
        [(world_empty, Forward), (world_abc, Backward)] @ [(world_abc, End)]) initial"
    by simp
  from empty_snapshot_gesture [OF i e, of world_abc Forward
      "[(world_empty, Forward), (world_abc, Backward)]" world_abc] i e
  show ?thesis unfolding r by blast
qed

section \<open>Pagination of the overlay\<close>


lemma js_slice_nat:
  "js_slice xs (int a) (int b) =
     take (min b (length xs) - min a (length xs)) (drop (min a (length xs)) xs)"
proof -
  have m: "min (int k) (int (length xs)) = int (min k (length xs))" for k
    by (simp add: min_def)
  have d: "nat (int x - int y) = x - y" for x y
    by arith
  show ?thesis by (simp add: js_slice_def Let_def m d)
qed

lemma js_slice_map: "js_slice (map f xs) a b = map f (js_slice xs a b)"
  by (simp add: js_slice_def Let_def take_map drop_map)

lemma take_drop_nth_upt:
  "hi \<le> length xs \<Longrightarrow> take (hi - lo) (drop lo xs) = map (\<lambda>i. xs ! i) [lo ..< hi]"
  by (rule nth_equalityI) (auto simp add: min_def split: if_splits)

lemma spec_pageCount_cases:
  "spec_pageCount snap P = 1 \<or> (spec_pageCount snap P = 2 \<and> P < length (spec_workingList snap P))"
  by (simp add: spec_pageCount_def)

lemma OverlayContent_row:
  assumes "overlayMode w = Row" and "cycleIndex s = int c"
    and "max 3 (min 7 (overlayRowLength w)) = int P"
  shows "pageItems (OverlayContent w s) = map Some (spec_window (cycleSnapshot s) c P)"
    and "currentPage (OverlayContent w s) = int (spec_currentPage (cycleSnapshot s) c P)"
    and "pageCount (OverlayContent w s) = int (spec_pageCount (cycleSnapshot s) P)"
proof -
  let ?snap = "cycleSnapshot s"
  let ?wl = "spec_workingList ?snap P"
  let ?pc = "spec_pageCount ?snap P"
  let ?cp = "spec_currentPage ?snap c P"
  have two: "int P * 2 = int (2 * P)" by simp
  have vl: "js_slice ?snap 0 (int P * 2) = ?wl"
    unfolding two using js_slice_nat [of ?snap 0 "2 * P"]
    by (simp add: spec_workingList_def)
  have pc: "(if int P < int (length ?wl) then 2 else 1) = int ?pc"
    by (simp add: spec_pageCount_def)
  have pc1: "1 \<le> ?pc" by (simp add: spec_pageCount_def)
  have pm: "int ?pc - 1 = int (?pc - 1)" using pc1 by simp
  have dv: "int c div int P = int (c div P)" by (simp add: zdiv_int)
  have cp: "min (int ?pc - 1) (int c div int P) = int ?cp"
    unfolding pm dv spec_currentPage_def by (simp add: min_def)
  have lo: "?cp * P \<le> length ?wl"
    using spec_pageCount_cases [of ?snap P]
  proof
    assume "?pc = 1"
    then show ?thesis by (simp add: spec_currentPage_def)
  next
    assume a: "?pc = 2 \<and> P < length ?wl"
    then have "?cp \<le> 1" by (simp add: spec_currentPage_def)
    then have "?cp = 0 \<or> ?cp = 1" by arith
    with a show ?thesis by auto
  qed
  have mn: "min (int x) (int y) = int (min x y)" for x y
    by (simp add: min_def)
  have "int ?cp * int P + int P = int ((?cp + 1) * P)"
    by (simp add: algebra_simps)
  then have "min (int ?cp * int P + int P) (int (length ?wl))
      = min (int ((?cp + 1) * P)) (int (length ?wl))"
    by (simp only:)
  also have "\<dots> = int (min ((?cp + 1) * P) (length ?wl))"
    by (rule mn)
  finally have b2: "min (int ?cp * int P + int P) (int (length ?wl))
      = int (min ((?cp + 1) * P) (length ?wl))" .
  have b1: "int ?cp * int P = int (?cp * P)" by simp
  have win: "js_slice (map Some ?wl) (int ?cp * int P)
        (min (int ?cp * int P + int P) (int (length ?wl)))
      = map Some (spec_window ?snap c P)"
  proof -
    have "js_slice ?wl (int (?cp * P)) (int (min ((?cp + 1) * P) (length ?wl)))
        = take (min (min ((?cp + 1) * P) (length ?wl)) (length ?wl) - min (?cp * P) (length ?wl))
            (drop (min (?cp * P) (length ?wl)) ?wl)"
      by (rule js_slice_nat)
    also have "\<dots> = take (min ((?cp + 1) * P) (length ?wl) - ?cp * P) (drop (?cp * P) ?wl)"
      using lo by (simp add: min_absorb1)
    also have "\<dots> = map (\<lambda>i. ?wl ! i) [?cp * P ..< min ((?cp + 1) * P) (length ?wl)]"
      by (rule take_drop_nth_upt) simp
    also have "\<dots> = spec_window ?snap c P"
      by (simp add: spec_window_def Let_def)
    finally have k: "js_slice ?wl (int (?cp * P)) (int (min ((?cp + 1) * P) (length ?wl)))
        = spec_window ?snap c P" .
    show ?thesis
      unfolding js_slice_map b2 unfolding b1 k by (rule refl)
  qed
  have mode: "overlayMode w \<noteq> Current" using assms(1) by simp
  have ci: "0 \<le> int c" by simp
  show "pageItems (OverlayContent w s) = map Some (spec_window ?snap c P)"
    unfolding OverlayContent_def Let_def assms(2,3)
    by (simp only: mode if_False if_True ci not_False_eq_True vl length_map pc cp win
          overlay_page.simps)
  show "currentPage (OverlayContent w s) = int ?cp"
    unfolding OverlayContent_def Let_def assms(2,3)
    by (simp only: mode if_False if_True ci not_False_eq_True vl length_map pc cp
          overlay_page.simps)
  show "pageCount (OverlayContent w s) = int ?pc"
    unfolding OverlayContent_def Let_def assms(2,3)
    by (simp only: mode if_False if_True ci not_False_eq_True vl length_map pc
          overlay_page.simps)
qed

lemma spec_window_8_5_6:
  assumes "length snap = 8"
  shows "spec_pageCount snap 5 = 2" and "spec_currentPage snap 6 5 = 1"
    and "spec_window snap 6 5 = [snap ! 5, snap ! 6, snap ! 7]"
proof -
  from assms have wl: "spec_workingList snap 5 = snap"
    by (simp add: spec_workingList_def)
  then show pc: "spec_pageCount snap 5 = 2"
    using assms by (simp add: spec_pageCount_def)
  then show cp: "spec_currentPage snap 6 5 = 1"
    by (simp add: spec_currentPage_def)
  have "[5 ..< 8] = [5, 6, 7::nat]" by (simp add: upt_rec)
  with wl cp assms show "spec_window snap 6 5 = [snap ! 5, snap ! 6, snap ! 7]"
    by (simp add: spec_window_def Let_def)
qed

text \<open>
  C8. In row mode, with the cursor an index (not negative), what \<^verbatim>\<open>OverlayContent\<close>
  computes is the function of the snapshot, the cursor and the row length that the
  specification gives, the page size being the row length clamped to \<open>[3, 7]\<close>: the
  working list is the first \<open>min (2 \<times> pageSize) |snapshot|\<close> entries, the page count is 2
  if the working list is longer than a page and 1 otherwise, the current page is
  \<open>min (pageCount - 1) (cursor div pageSize)\<close>, and the window is the slice of the working
  list from \<open>currentPage \<times> pageSize\<close> to
  \<open>min ((currentPage + 1) \<times> pageSize) |workingList|\<close>. In particular, for a snapshot of
  length 8, row length 5 and cursor 6, there are 2 pages, the current page is 1 and the
  window is the entries at indices 5, 6 and 7.
\<close>

theorem row_pagination:
  assumes "overlayMode w = Row" and "0 \<le> cycleIndex s"
  shows "pageItems (OverlayContent w s) =
      map Some (spec_window (cycleSnapshot s) (nat (cycleIndex s))
        (nat (max 3 (min 7 (overlayRowLength w)))))
    \<and> currentPage (OverlayContent w s) =
      int (spec_currentPage (cycleSnapshot s) (nat (cycleIndex s))
        (nat (max 3 (min 7 (overlayRowLength w)))))
    \<and> pageCount (OverlayContent w s) =
      int (spec_pageCount (cycleSnapshot s) (nat (max 3 (min 7 (overlayRowLength w)))))
    \<and> (length (cycleSnapshot s) = 8 \<and> overlayRowLength w = 5 \<and> cycleIndex s = 6 \<longrightarrow>
          pageCount (OverlayContent w s) = 2
        \<and> currentPage (OverlayContent w s) = 1
        \<and> pageItems (OverlayContent w s) =
            map Some [cycleSnapshot s ! 5, cycleSnapshot s ! 6, cycleSnapshot s ! 7])"
proof -
  let ?P = "nat (max 3 (min 7 (overlayRowLength w)))"
  let ?c = "nat (cycleIndex s)"
  from assms(2) have c: "cycleIndex s = int ?c" by simp
  have p: "max 3 (min 7 (overlayRowLength w)) = int ?P" by simp
  note row = OverlayContent_row [OF assms(1) c p]
  have "pageCount (OverlayContent w s) = 2
      \<and> currentPage (OverlayContent w s) = 1
      \<and> pageItems (OverlayContent w s) =
          map Some [cycleSnapshot s ! 5, cycleSnapshot s ! 6, cycleSnapshot s ! 7]"
    if h: "length (cycleSnapshot s) = 8 \<and> overlayRowLength w = 5 \<and> cycleIndex s = 6"
  proof -
    from h have P5: "?P = 5" and c6: "?c = 6" by simp_all
    from h have len: "length (cycleSnapshot s) = 8" by simp
    from row spec_window_8_5_6 [OF len] show ?thesis
      unfolding P5 c6 by simp
  qed
  with row show ?thesis by blast
qed

theorem row_pagination_witness:
  "overlayMode world_abc = Row \<and> 0 \<le> cycleIndex eight_open
   \<and> length (cycleSnapshot eight_open) = 8 \<and> overlayRowLength world_abc = 5
   \<and> cycleIndex eight_open = 6
   \<and> pageCount (OverlayContent world_abc eight_open) = 2
   \<and> currentPage (OverlayContent world_abc eight_open) = 1
   \<and> pageItems (OverlayContent world_abc eight_open) = [Some ''f'', Some ''g'', Some ''h'']"
proof -
  have m: "overlayMode world_abc = Row" and r: "overlayRowLength world_abc = 5"
    by (simp_all add: world_abc_def)
  have c: "cycleIndex eight_open = 6" and l: "length (cycleSnapshot eight_open) = 8"
    and n: "cycleSnapshot eight_open ! 5 = ''f''" "cycleSnapshot eight_open ! 6 = ''g''"
      "cycleSnapshot eight_open ! 7 = ''h''"
    by (simp_all add: eight_open_def)
  from c have z: "0 \<le> cycleIndex eight_open" by simp
  from row_pagination [OF m z] l r c
  have "pageCount (OverlayContent world_abc eight_open) = 2
      \<and> currentPage (OverlayContent world_abc eight_open) = 1
      \<and> pageItems (OverlayContent world_abc eight_open) =
          map Some [cycleSnapshot eight_open ! 5, cycleSnapshot eight_open ! 6,
            cycleSnapshot eight_open ! 7]"
    by blast
  with m z l r c n show ?thesis by simp
qed

end
